theory Spec2Isabelle
  imports Main "HOL-Library.Log_Nat"
begin

section \<open>Stock trading profit calculator: the two trade finders\<close>

text \<open>
  The development embeds \<^verbatim>\<open>src/src/tradingAlgorithms.ts\<close>. Prices are JavaScript numbers:
  IEEE 754 double precision values with \<^verbatim>\<open>NaN\<close> and the two infinities, subtraction rounded
  to the nearest double and comparisons that are false on \<^verbatim>\<open>NaN\<close>. Indices are integers, as
  in the source, where \<^verbatim>\<open>nextTradeStartIndex\<close> starts at \<open>-1\<close> and \<^verbatim>\<open>prices.length - 1\<close>
  is \<open>-1\<close> on the empty array.
\<close>

subsection \<open>JavaScript numbers\<close>

text \<open>
  A finite number is given by its value, a rational. Every double is such a value; what
  is proved for every rational value holds of the doubles. The two zeros are one value:
  the finders only subtract and compare, and both treat \<open>-0\<close> as \<open>0\<close>.
\<close>

datatype number = Finite rat | PosInfinity | NegInfinity | NaN

text \<open>Rounding a rational to an integer, to the nearest and to the even one on a tie.\<close>

definition roundHalfEven :: "rat \<Rightarrow> int" where
  "roundHalfEven q =
     (let f = \<lfloor>q\<rfloor>; r = q - of_int f
      in if r < 1 / 2 then f else if 1 / 2 < r then f + 1 else if even f then f else f + 1)"

text \<open>The exponent \<open>e\<close> with \<open>2\<^sup>e \<le> x < 2\<^sup>e\<^sup>+\<^sup>1\<close>, for positive \<open>x\<close>.\<close>

definition binade :: "rat \<Rightarrow> int" where
  "binade x =
     (let (a, b) = quotient_of x; d = bitlen a - bitlen b
      in if 2 powi d \<le> x then d else d - 1)"

text \<open>
  A positive rational rounded to \<open>53\<close> significant bits, or to a multiple of \<open>2\<^sup>-\<^sup>1\<^sup>0\<^sup>7\<^sup>4\<close> below
  the normal range: the unit in the last place is \<open>2\<close> to the power \<open>max e (-1022) - 52\<close>.
\<close>

definition roundMagnitude :: "rat \<Rightarrow> rat" where
  "roundMagnitude x =
     (let u = 2 powi (max (binade x) (- 1022) - 52)
      in of_int (roundHalfEven (x / u)) * u)"

text \<open>
  The double nearest to a rational. A magnitude that rounds to \<open>2\<^sup>1\<^sup>0\<^sup>2\<^sup>4\<close> or more overflows
  to an infinity.
\<close>

definition roundDouble :: "rat \<Rightarrow> number" where
  "roundDouble x =
     (if x = 0 then Finite 0
      else if 0 < x
      then (let r = roundMagnitude x in if 2 ^ 1024 \<le> r then PosInfinity else Finite r)
      else (let r = roundMagnitude (- x) in if 2 ^ 1024 \<le> r then NegInfinity else Finite (- r)))"

text \<open>The operator \<^verbatim>\<open>-\<close> on numbers.\<close>

fun jsSub :: "number \<Rightarrow> number \<Rightarrow> number" where
  "jsSub NaN y = NaN"
| "jsSub x NaN = NaN"
| "jsSub (Finite x) (Finite y) = roundDouble (x - y)"
| "jsSub (Finite x) PosInfinity = NegInfinity"
| "jsSub (Finite x) NegInfinity = PosInfinity"
| "jsSub PosInfinity PosInfinity = NaN"
| "jsSub PosInfinity y = PosInfinity"
| "jsSub NegInfinity NegInfinity = NaN"
| "jsSub NegInfinity y = NegInfinity"

text \<open>The operators \<^verbatim>\<open><\<close>, \<^verbatim>\<open>>\<close>, \<^verbatim>\<open><=\<close> and \<^verbatim>\<open>>=\<close> on numbers: false when an operand is \<^verbatim>\<open>NaN\<close>.\<close>

fun jsLess :: "number \<Rightarrow> number \<Rightarrow> bool" where
  "jsLess NaN y = False"
| "jsLess x NaN = False"
| "jsLess (Finite x) (Finite y) = (x < y)"
| "jsLess (Finite x) PosInfinity = True"
| "jsLess NegInfinity (Finite y) = True"
| "jsLess NegInfinity PosInfinity = True"
| "jsLess x y = False"

definition jsGreater :: "number \<Rightarrow> number \<Rightarrow> bool" where
  "jsGreater x y = jsLess y x"

definition jsLessEq :: "number \<Rightarrow> number \<Rightarrow> bool" where
  "jsLessEq x y = (x \<noteq> NaN \<and> y \<noteq> NaN \<and> \<not> jsLess y x)"

definition jsGreaterEq :: "number \<Rightarrow> number \<Rightarrow> bool" where
  "jsGreaterEq x y = jsLessEq y x"

subsection \<open>Array reads\<close>

text \<open>
  A read outside the array does not yield a price (JavaScript gives \<^verbatim>\<open>undefined\<close>).
  The model makes it the value \<open>Inl OutOfBounds\<close>, which every caller propagates.
\<close>

datatype fault = OutOfBounds

definition priceAt :: "number list \<Rightarrow> int \<Rightarrow> fault + number" where
  "priceAt prices i =
     (if 0 \<le> i \<and> i < int (length prices) then Inr (prices ! nat i) else Inl OutOfBounds)"

subsection \<open>findBestTrade: the quadratic finder with restarts\<close>

text \<open>The local variables of \<^verbatim>\<open>findBestTrade\<close> that live across loop iterations.\<close>

record search =
  bestBuyIndex :: int
  bestSellIndex :: int
  currentBestProfit :: number
  minPriceDrop :: number
  isOptimalFound :: bool
  nextTradeStartIndex :: int

text \<open>Lines 11 to 23: the initial values.\<close>

definition initialSearch :: "search" where
  "initialSearch =
     \<lparr>bestBuyIndex = 0, bestSellIndex = 0, currentBestProfit = Finite 0,
      minPriceDrop = Finite 0,
      isOptimalFound = True, nextTradeStartIndex = - 1\<rparr>"

text \<open>
  Lines 34 to 60: the body of the inner loop, for one \<^verbatim>\<open>futureIndex\<close>. The four reads
  are in the order of the source.
\<close>

definition innerBody ::
  "number list \<Rightarrow> int \<Rightarrow> int \<Rightarrow> search \<Rightarrow> fault + search" where
  "innerBody prices currentIndex futureIndex st =
     (case priceAt prices futureIndex of Inl e \<Rightarrow> Inl e | Inr pf \<Rightarrow>
      case priceAt prices currentIndex of Inl e \<Rightarrow> Inl e | Inr pc \<Rightarrow>
      case priceAt prices (bestSellIndex st) of Inl e \<Rightarrow> Inl e | Inr ps \<Rightarrow>
      case priceAt prices (bestBuyIndex st) of Inl e \<Rightarrow> Inl e | Inr pb \<Rightarrow>
        let potentialProfit = jsSub pf pc;
            st1 = st\<lparr>currentBestProfit := jsSub ps pb\<rparr>;
            st2 = (if jsGreater potentialProfit (currentBestProfit st1)
                   then st1\<lparr>bestBuyIndex := currentIndex, bestSellIndex := futureIndex\<rparr>
                   else st1);
            st3 = (if jsLess potentialProfit (minPriceDrop st2)
                   then st2\<lparr>minPriceDrop := potentialProfit,
                            nextTradeStartIndex := futureIndex,
                            isOptimalFound := False\<rparr>
                   else st2)
        in Inr st3)"

text \<open>Lines 32 to 61: the inner loop over \<^verbatim>\<open>futureIndex\<close>, for a fixed \<^verbatim>\<open>currentIndex\<close>.\<close>

function innerLoop ::
  "number list \<Rightarrow> int \<Rightarrow> int \<Rightarrow> search \<Rightarrow> fault + search" where
  "innerLoop prices currentIndex futureIndex st =
     (if futureIndex < int (length prices) then
        (case innerBody prices currentIndex futureIndex st of
           Inl e \<Rightarrow> Inl e
         | Inr st3 \<Rightarrow> innerLoop prices currentIndex (futureIndex + 1) st3)
      else Inr st)"
  by pat_completeness auto
termination
  by (relation "measure (\<lambda>(prices, currentIndex, futureIndex, st).
        nat (int (length prices) - futureIndex))") auto

declare innerLoop.simps [simp del]

text \<open>
  A restart target recorded by the inner loop lies after the current index. The outer
  loop's termination rests on this.
\<close>

lemma innerBody_restart:
  "innerBody prices currentIndex futureIndex st = Inr st3 \<Longrightarrow>
   currentIndex < futureIndex \<Longrightarrow>
   isOptimalFound st \<or> currentIndex < nextTradeStartIndex st \<Longrightarrow>
   isOptimalFound st3 \<or> currentIndex < nextTradeStartIndex st3"
  by (auto simp: innerBody_def Let_def split: sum.splits if_splits)

lemma innerLoop_restart:
  "innerLoop prices currentIndex futureIndex st = Inr st' \<Longrightarrow>
   currentIndex < futureIndex \<Longrightarrow>
   isOptimalFound st \<or> currentIndex < nextTradeStartIndex st \<Longrightarrow>
   isOptimalFound st' \<or> currentIndex < nextTradeStartIndex st'"
proof (induction prices currentIndex futureIndex st rule: innerLoop.induct)
  case (1 prices currentIndex futureIndex st)
  show ?case
  proof (cases "futureIndex < int (length prices)")
    case False
    with "1.prems"(1) have "st' = st"
      by (simp add: innerLoop.simps[of prices currentIndex futureIndex st])
    with "1.prems"(3) show ?thesis by simp
  next
    case True
    with "1.prems"(1) obtain st3 where
      body: "innerBody prices currentIndex futureIndex st = Inr st3"
      and rest: "innerLoop prices currentIndex (futureIndex + 1) st3 = Inr st'"
      by (auto simp: innerLoop.simps[of prices currentIndex futureIndex st] split: sum.splits)
    from innerBody_restart[OF body "1.prems"(2,3)] "1.prems"(2)
    show ?thesis
      by (intro "1.IH"[OF True body rest]) simp_all
  qed
qed

text \<open>
  Lines 27 to 81: the outer loop. Its argument \<^verbatim>\<open>currentIndex\<close> is the value the loop
  test sees; the source's \<^verbatim>\<open>currentIndex = nextTradeStartIndex - 1\<close> followed by the
  loop's increment is the call at \<open>nextTradeStartIndex st' - 1 + 1\<close>.
\<close>

function outerLoop ::
  "number list \<Rightarrow> int \<Rightarrow> search \<Rightarrow> fault + (int \<times> int)" where
  "outerLoop prices currentIndex st =
     (if currentIndex < int (length prices) - 1 then
        (case innerLoop prices currentIndex (currentIndex + 1)
                (st\<lparr>isOptimalFound := True, minPriceDrop := Finite 0\<rparr>) of
           Inl e \<Rightarrow> Inl e
         | Inr st' \<Rightarrow>
             if isOptimalFound st' then Inr (bestBuyIndex st', bestSellIndex st')
             else if nextTradeStartIndex st' \<ge> 1
                     \<and> nextTradeStartIndex st' \<le> int (length prices) - 2
             then outerLoop prices (nextTradeStartIndex st' - 1 + 1) st'
             else outerLoop prices (currentIndex + 1) st')
      else Inr (bestBuyIndex st, bestSellIndex st))"
  by pat_completeness auto
termination
proof (relation "measure (\<lambda>(prices, currentIndex, st). nat (int (length prices) - currentIndex))")
  show "wf (measure (\<lambda>(prices, currentIndex, st). nat (int (length prices) - currentIndex)))"
    by simp
next
  fix prices :: "number list" and currentIndex :: int and st st' :: "search"
  assume lt: "currentIndex < int (length prices) - 1"
    and run: "innerLoop prices currentIndex (currentIndex + 1)
                (st\<lparr>isOptimalFound := True, minPriceDrop := Finite 0\<rparr>) = Inr st'"
    and nopt: "\<not> isOptimalFound st'"
    and rng: "1 \<le> nextTradeStartIndex st' \<and> nextTradeStartIndex st' \<le> int (length prices) - 2"
  from innerLoop_restart[OF run] nopt have "currentIndex < nextTradeStartIndex st'"
    by simp
  with rng show "((prices, nextTradeStartIndex st' - 1 + 1, st'), prices, currentIndex, st)
      \<in> measure (\<lambda>(prices, currentIndex, st). nat (int (length prices) - currentIndex))"
    by simp
next
  fix prices :: "number list" and currentIndex :: int and st st' :: "search"
  assume "currentIndex < int (length prices) - 1"
  then show "((prices, currentIndex + 1, st'), prices, currentIndex, st)
      \<in> measure (\<lambda>(prices, currentIndex, st). nat (int (length prices) - currentIndex))"
    by simp
qed

declare outerLoop.simps [simp del]

definition findBestTrade ::
  "number list \<Rightarrow> fault + (int \<times> int)" where
  "findBestTrade prices = outerLoop prices 0 initialSearch"

subsection \<open>findBestTradeFast: the single pass\<close>

text \<open>
  Lines 109 to 123: the loop over \<^verbatim>\<open>i\<close>. The source reads \<^verbatim>\<open>prices[i]\<close> and
  \<^verbatim>\<open>prices[minPriceIndex]\<close> a second time in the else branch; the array is not
  written, so the second read gives the values of the first.
\<close>

function fastLoop ::
  "number list \<Rightarrow> int \<Rightarrow> int \<Rightarrow> number \<Rightarrow> int \<Rightarrow> int \<Rightarrow> fault + (int \<times> int)" where
  "fastLoop prices i minPriceIndex maxProfit bestBuy bestSell =
     (if i < int (length prices) then
        (case priceAt prices i of Inl e \<Rightarrow> Inl e | Inr p_i \<Rightarrow>
         case priceAt prices minPriceIndex of Inl e \<Rightarrow> Inl e | Inr pm \<Rightarrow>
           if jsLess p_i pm then fastLoop prices (i + 1) i maxProfit bestBuy bestSell
           else
             let currentProfit = jsSub p_i pm in
             if jsGreater currentProfit maxProfit
             then fastLoop prices (i + 1) minPriceIndex currentProfit minPriceIndex i
             else fastLoop prices (i + 1) minPriceIndex maxProfit bestBuy bestSell)
      else Inr (bestBuy, bestSell))"
  by pat_completeness auto
termination
  by (relation "measure (\<lambda>(prices, i, minPriceIndex, maxProfit, bestBuy, bestSell).
        nat (int (length prices) - i))") auto

declare fastLoop.simps [simp del]

definition findBestTradeFast ::
  "number list \<Rightarrow> fault + (int \<times> int)" where
  "findBestTradeFast prices =
     (if length prices < 2 then Inr (0, 0) else fastLoop prices 1 0 (Finite 0) 0 0)"

subsection \<open>Realized profit\<close>

text \<open>
  The profit of a returned pair: the price at the sell index minus the price at the buy
  index, and \<open>0\<close> on the empty sequence, where the pair \<open>(0, 0)\<close> indexes nothing.
\<close>

definition realizedProfit :: "number list \<Rightarrow> int \<times> int \<Rightarrow> number" where
  "realizedProfit prices t =
     (if prices = [] then Finite 0 else jsSub (prices ! nat (snd t)) (prices ! nat (fst t)))"

subsection \<open>The outer indices visited by findBestTrade\<close>

text \<open>
  The values of \<^verbatim>\<open>currentIndex\<close> at which the body of the outer loop runs, in order:
  the recursion of \<open>outerLoop\<close>, collecting the index instead of the result.
\<close>

function outerIndices :: "number list \<Rightarrow> int \<Rightarrow> search \<Rightarrow> int list" where
  "outerIndices prices currentIndex st =
     (if currentIndex < int (length prices) - 1 then
        currentIndex #
        (case innerLoop prices currentIndex (currentIndex + 1)
                (st\<lparr>isOptimalFound := True, minPriceDrop := Finite 0\<rparr>) of
           Inl e \<Rightarrow> []
         | Inr st' \<Rightarrow>
             if isOptimalFound st' then []
             else if nextTradeStartIndex st' \<ge> 1
                     \<and> nextTradeStartIndex st' \<le> int (length prices) - 2
             then outerIndices prices (nextTradeStartIndex st' - 1 + 1) st'
             else outerIndices prices (currentIndex + 1) st')
      else [])"
  by pat_completeness auto
termination
proof (relation "measure (\<lambda>(prices, currentIndex, st). nat (int (length prices) - currentIndex))")
  show "wf (measure (\<lambda>(prices, currentIndex, st). nat (int (length prices) - currentIndex)))"
    by simp
next
  fix prices :: "number list" and currentIndex :: int and st st' :: "search"
  assume "currentIndex < int (length prices) - 1"
    and run: "innerLoop prices currentIndex (currentIndex + 1)
                (st\<lparr>isOptimalFound := True, minPriceDrop := Finite 0\<rparr>) = Inr st'"
    and nopt: "\<not> isOptimalFound st'"
    and rng: "1 \<le> nextTradeStartIndex st' \<and> nextTradeStartIndex st' \<le> int (length prices) - 2"
  from innerLoop_restart[OF run] nopt have "currentIndex < nextTradeStartIndex st'"
    by simp
  with rng show "((prices, nextTradeStartIndex st' - 1 + 1, st'), prices, currentIndex, st)
      \<in> measure (\<lambda>(prices, currentIndex, st). nat (int (length prices) - currentIndex))"
    by simp
next
  fix prices :: "number list" and currentIndex :: int and st st' :: "search"
  assume "currentIndex < int (length prices) - 1"
  then show "((prices, currentIndex + 1, st'), prices, currentIndex, st)
      \<in> measure (\<lambda>(prices, currentIndex, st). nat (int (length prices) - currentIndex))"
    by simp
qed

declare outerIndices.simps [simp del]

text \<open>
  The outer loop with a budget: each run of the loop body costs one unit of \<open>fuel\<close>, and
  the result is \<open>None\<close> when the body would have to run with none left.
\<close>

fun outerLoopFuel ::
  "nat \<Rightarrow> number list \<Rightarrow> int \<Rightarrow> search \<Rightarrow> (fault + (int \<times> int)) option" where
  "outerLoopFuel fuel prices currentIndex st =
     (if currentIndex < int (length prices) - 1 then
        (case fuel of
           0 \<Rightarrow> None
         | Suc fuel' \<Rightarrow>
             (case innerLoop prices currentIndex (currentIndex + 1)
                     (st\<lparr>isOptimalFound := True, minPriceDrop := Finite 0\<rparr>) of
                Inl e \<Rightarrow> Some (Inl e)
              | Inr st' \<Rightarrow>
                  if isOptimalFound st' then Some (Inr (bestBuyIndex st', bestSellIndex st'))
                  else if nextTradeStartIndex st' \<ge> 1
                          \<and> nextTradeStartIndex st' \<le> int (length prices) - 2
                  then outerLoopFuel fuel' prices (nextTradeStartIndex st' - 1 + 1) st'
                  else outerLoopFuel fuel' prices (currentIndex + 1) st'))
      else Some (Inr (bestBuyIndex st, bestSellIndex st)))"

declare outerLoopFuel.simps [simp del]

subsection \<open>findBestTrade with a cached comparison baseline\<close>

text \<open>
  The variant the specification describes: \<^verbatim>\<open>currentBestProfit\<close> is computed from the
  best pair once per iteration of the outer loop, and the inner loop compares against the
  stored value instead of computing it again (line 37 is gone). With \<open>refresh\<close> the inner
  loop also stores the new profit when it replaces the best pair; without it the stored
  value stays as it was for the whole inner loop, as the specification words it.
\<close>

definition innerBodyCached ::
  "bool \<Rightarrow> number list \<Rightarrow> int \<Rightarrow> int \<Rightarrow> search \<Rightarrow> fault + search" where
  "innerBodyCached refresh prices currentIndex futureIndex st =
     (case priceAt prices futureIndex of Inl e \<Rightarrow> Inl e | Inr pf \<Rightarrow>
      case priceAt prices currentIndex of Inl e \<Rightarrow> Inl e | Inr pc \<Rightarrow>
        let potentialProfit = jsSub pf pc;
            st2 = (if jsGreater potentialProfit (currentBestProfit st)
                   then (if refresh
                         then st\<lparr>bestBuyIndex := currentIndex, bestSellIndex := futureIndex,
                                 currentBestProfit := potentialProfit\<rparr>
                         else st\<lparr>bestBuyIndex := currentIndex, bestSellIndex := futureIndex\<rparr>)
                   else st);
            st3 = (if jsLess potentialProfit (minPriceDrop st2)
                   then st2\<lparr>minPriceDrop := potentialProfit,
                            nextTradeStartIndex := futureIndex,
                            isOptimalFound := False\<rparr>
                   else st2)
        in Inr st3)"

function innerLoopCached ::
  "bool \<Rightarrow> number list \<Rightarrow> int \<Rightarrow> int \<Rightarrow> search \<Rightarrow> fault + search" where
  "innerLoopCached refresh prices currentIndex futureIndex st =
     (if futureIndex < int (length prices) then
        (case innerBodyCached refresh prices currentIndex futureIndex st of
           Inl e \<Rightarrow> Inl e
         | Inr st3 \<Rightarrow> innerLoopCached refresh prices currentIndex (futureIndex + 1) st3)
      else Inr st)"
  by pat_completeness auto
termination
  by (relation "measure (\<lambda>(refresh, prices, currentIndex, futureIndex, st).
        nat (int (length prices) - futureIndex))") auto

declare innerLoopCached.simps [simp del]

lemma innerBodyCached_restart:
  "innerBodyCached refresh prices currentIndex futureIndex st = Inr st3 \<Longrightarrow>
   currentIndex < futureIndex \<Longrightarrow>
   isOptimalFound st \<or> currentIndex < nextTradeStartIndex st \<Longrightarrow>
   isOptimalFound st3 \<or> currentIndex < nextTradeStartIndex st3"
  by (auto simp: innerBodyCached_def Let_def split: sum.splits if_splits)

lemma innerLoopCached_restart:
  "innerLoopCached refresh prices currentIndex futureIndex st = Inr st' \<Longrightarrow>
   currentIndex < futureIndex \<Longrightarrow>
   isOptimalFound st \<or> currentIndex < nextTradeStartIndex st \<Longrightarrow>
   isOptimalFound st' \<or> currentIndex < nextTradeStartIndex st'"
proof (induction refresh prices currentIndex futureIndex st rule: innerLoopCached.induct)
  case (1 refresh prices currentIndex futureIndex st)
  show ?case
  proof (cases "futureIndex < int (length prices)")
    case False
    with "1.prems"(1) have "st' = st"
      by (simp add: innerLoopCached.simps[of refresh prices currentIndex futureIndex st])
    with "1.prems"(3) show ?thesis by simp
  next
    case True
    with "1.prems"(1) obtain st3 where
      body: "innerBodyCached refresh prices currentIndex futureIndex st = Inr st3"
      and rest: "innerLoopCached refresh prices currentIndex (futureIndex + 1) st3 = Inr st'"
      by (auto simp: innerLoopCached.simps[of refresh prices currentIndex futureIndex st]
          split: sum.splits)
    from innerBodyCached_restart[OF body "1.prems"(2,3)] "1.prems"(2)
    show ?thesis
      by (intro "1.IH"[OF True body rest]) simp_all
  qed
qed

function outerLoopCached ::
  "bool \<Rightarrow> number list \<Rightarrow> int \<Rightarrow> search \<Rightarrow> fault + (int \<times> int)" where
  "outerLoopCached refresh prices currentIndex st =
     (if currentIndex < int (length prices) - 1 then
        (case priceAt prices (bestSellIndex st) of Inl e \<Rightarrow> Inl e | Inr ps \<Rightarrow>
         case priceAt prices (bestBuyIndex st) of Inl e \<Rightarrow> Inl e | Inr pb \<Rightarrow>
         case innerLoopCached refresh prices currentIndex (currentIndex + 1)
                (st\<lparr>isOptimalFound := True, minPriceDrop := Finite 0,
                    currentBestProfit := jsSub ps pb\<rparr>) of
           Inl e \<Rightarrow> Inl e
         | Inr st' \<Rightarrow>
             if isOptimalFound st' then Inr (bestBuyIndex st', bestSellIndex st')
             else if nextTradeStartIndex st' \<ge> 1
                     \<and> nextTradeStartIndex st' \<le> int (length prices) - 2
             then outerLoopCached refresh prices (nextTradeStartIndex st' - 1 + 1) st'
             else outerLoopCached refresh prices (currentIndex + 1) st')
      else Inr (bestBuyIndex st, bestSellIndex st))"
  by pat_completeness auto
termination
proof (relation "measure (\<lambda>(refresh, prices, currentIndex, st).
          nat (int (length prices) - currentIndex))")
  show "wf (measure (\<lambda>(refresh, prices, currentIndex, st).
          nat (int (length prices) - currentIndex)))"
    by simp
next
  fix refresh :: bool and prices :: "number list" and currentIndex :: int
    and st st' :: "search" and ps pb :: number
  assume "currentIndex < int (length prices) - 1"
    and run: "innerLoopCached refresh prices currentIndex (currentIndex + 1)
                (st\<lparr>isOptimalFound := True, minPriceDrop := Finite 0,
                    currentBestProfit := jsSub ps pb\<rparr>) = Inr st'"
    and nopt: "\<not> isOptimalFound st'"
    and rng: "1 \<le> nextTradeStartIndex st' \<and> nextTradeStartIndex st' \<le> int (length prices) - 2"
  from innerLoopCached_restart[OF run] nopt have "currentIndex < nextTradeStartIndex st'"
    by simp
  with rng show "((refresh, prices, nextTradeStartIndex st' - 1 + 1, st'),
        refresh, prices, currentIndex, st)
      \<in> measure (\<lambda>(refresh, prices, currentIndex, st).
          nat (int (length prices) - currentIndex))"
    by simp
next
  fix refresh :: bool and prices :: "number list" and currentIndex :: int
    and st st' :: "search"
  assume "currentIndex < int (length prices) - 1"
  then show "((refresh, prices, currentIndex + 1, st'), refresh, prices, currentIndex, st)
      \<in> measure (\<lambda>(refresh, prices, currentIndex, st).
          nat (int (length prices) - currentIndex))"
    by simp
qed

declare outerLoopCached.simps [simp del]

text \<open>The specification's variant: the baseline is fixed for each outer iteration.\<close>

definition findBestTradeHoisted :: "number list \<Rightarrow> fault + (int \<times> int)" where
  "findBestTradeHoisted prices = outerLoopCached False prices 0 initialSearch"

text \<open>The variant that also stores the new profit whenever the best pair is replaced.\<close>

definition findBestTradeRefreshed :: "number list \<Rightarrow> fault + (int \<times> int)" where
  "findBestTradeRefreshed prices = outerLoopCached True prices 0 initialSearch"

subsection \<open>Invariants of the loops\<close>

text \<open>
  What holds of the best pair of \<^verbatim>\<open>findBestTrade\<close> between iterations, whatever the
  prices are: both indices are in the array and the buy index is not after the sell index.
\<close>

definition goodSearch :: "number list \<Rightarrow> search \<Rightarrow> bool" where
  "goodSearch prices st \<longleftrightarrow>
     0 \<le> bestBuyIndex st \<and> bestBuyIndex st \<le> bestSellIndex st
     \<and> bestSellIndex st < int (length prices)"

text \<open>The best pair does not lose: its profit, as the source computes it, is \<open>>= 0\<close>.\<close>

definition gainful :: "number list \<Rightarrow> search \<Rightarrow> bool" where
  "gainful prices st \<longleftrightarrow>
     jsLessEq (Finite 0)
       (jsSub (prices ! nat (bestSellIndex st)) (prices ! nat (bestBuyIndex st)))"

text \<open>
  The state of the cached variant that corresponds to a state of \<^verbatim>\<open>findBestTrade\<close>:
  the stored baseline is the profit of the best pair.
\<close>

definition cached :: "number list \<Rightarrow> search \<Rightarrow> search" where
  "cached prices st =
     st\<lparr>currentBestProfit :=
          jsSub (prices ! nat (bestSellIndex st)) (prices ! nat (bestBuyIndex st))\<rparr>"

text \<open>
  What holds of the indices of \<^verbatim>\<open>findBestTradeFast\<close> when the loop test is evaluated at
  \<open>i\<close>, whatever the prices are.
\<close>

definition fastValid :: "number list \<Rightarrow> int \<Rightarrow> int \<Rightarrow> int \<Rightarrow> int \<Rightarrow> bool" where
  "fastValid prices i minPriceIndex bestBuy bestSell \<longleftrightarrow>
     1 \<le> i \<and> i \<le> int (length prices) \<and> 0 \<le> minPriceIndex \<and> minPriceIndex < i
     \<and> 0 \<le> bestBuy \<and> bestBuy \<le> bestSell \<and> bestSell < i"



text \<open>The predicate \<^verbatim>\<open>Number.isFinite\<close>.\<close>

definition isFinite :: "number \<Rightarrow> bool" where
  "isFinite x = (case x of Finite r \<Rightarrow> True | _ \<Rightarrow> False)"

section \<open>Properties of the numbers\<close>

subsection \<open>Rounding\<close>

lemma roundHalfEven_of_int: "roundHalfEven (of_int n) = n"
  by (simp add: roundHalfEven_def)

lemma roundHalfEven_bounds: "\<lfloor>q\<rfloor> \<le> roundHalfEven q \<and> roundHalfEven q \<le> \<lfloor>q\<rfloor> + 1"
  by (simp add: roundHalfEven_def Let_def)

lemma roundHalfEven_mono: "q \<le> q' \<Longrightarrow> roundHalfEven q \<le> roundHalfEven q'"
proof -
  assume le: "q \<le> q'"
  then have fl: "\<lfloor>q\<rfloor> \<le> \<lfloor>q'\<rfloor>" by (rule floor_mono)
  show ?thesis
  proof (cases "\<lfloor>q\<rfloor> = \<lfloor>q'\<rfloor>")
    case True
    with le have "q - of_int \<lfloor>q\<rfloor> \<le> q' - of_int \<lfloor>q'\<rfloor>" by simp
    with True show ?thesis
      by (auto simp: roundHalfEven_def Let_def)
  next
    case False
    with fl have "\<lfloor>q\<rfloor> + 1 \<le> \<lfloor>q'\<rfloor>" by simp
    with roundHalfEven_bounds[of q] roundHalfEven_bounds[of q'] show ?thesis by linarith
  qed
qed

lemma roundHalfEven_ge: "of_int A \<le> q \<Longrightarrow> A \<le> roundHalfEven q"
  using roundHalfEven_mono[of "of_int A" q] by (simp add: roundHalfEven_of_int)


lemma binade_bounds:
  assumes "0 < x"
  shows "2 powi (binade x) \<le> x \<and> x < 2 powi (binade x + 1)"
proof -
  obtain a b where q: "quotient_of x = (a, b)" by (cases "quotient_of x")
  then have x: "x = of_int a / of_int b" and b: "0 < b"
    by (auto simp: quotient_of_div quotient_of_denom_pos)
  with assms have a: "0 < a" by (simp add: zero_less_divide_iff)
  define la lb where "la = bitlen a" and "lb = bitlen b"
  from bitlen_bounds[OF a] bitlen_bounds[OF b] bitlen_nonneg[of a] bitlen_nonneg[of b]
  have ba: "2 ^ nat (la - 1) \<le> a" "a < 2 ^ nat la" and bb: "2 ^ nat (lb - 1) \<le> b" "b < 2 ^ nat lb"
    by (simp_all add: la_def lb_def)
  have la1: "1 \<le> la" using a ba(2) by (cases "la \<le> 0") auto
  have lb1: "1 \<le> lb" using b bb(2) by (cases "lb \<le> 0") auto
  have ra: "(2::rat) powi (la - 1) \<le> of_int a" "of_int a < (2::rat) powi la"
  proof -
    have "of_int (2 ^ nat (la - 1) :: int) \<le> (of_int a :: rat)"
      using ba(1) by (simp only: of_int_le_iff)
    then show "(2::rat) powi (la - 1) \<le> of_int a"
      using la1 by (simp add: power_int_nonneg_exp)
    have "(of_int a :: rat) < of_int (2 ^ nat la :: int)"
      using ba(2) by (simp only: of_int_less_iff)
    then show "of_int a < (2::rat) powi la"
      using la1 by (simp add: power_int_nonneg_exp)
  qed
  have rb: "(2::rat) powi (lb - 1) \<le> of_int b" "of_int b < (2::rat) powi lb"
  proof -
    have "of_int (2 ^ nat (lb - 1) :: int) \<le> (of_int b :: rat)"
      using bb(1) by (simp only: of_int_le_iff)
    then show "(2::rat) powi (lb - 1) \<le> of_int b"
      using lb1 by (simp add: power_int_nonneg_exp)
    have "(of_int b :: rat) < of_int (2 ^ nat lb :: int)"
      using bb(2) by (simp only: of_int_less_iff)
    then show "of_int b < (2::rat) powi lb"
      using lb1 by (simp add: power_int_nonneg_exp)
  qed
  have up: "x < 2 powi (la - lb + 1)"
  proof -
    have "x < 2 powi la / of_int b" unfolding x using ra(2) b by (simp add: divide_strict_right_mono)
    also have "\<dots> \<le> 2 powi la / 2 powi (lb - 1)"
      using rb(1) by (intro divide_left_mono) (simp_all add: zero_less_power_int mult_pos_pos b)
    also have "\<dots> = 2 powi (la - lb + 1)"
      by (simp add: power_int_diff power_int_add)
    finally show ?thesis .
  qed
  have lo: "2 powi (la - lb - 1) \<le> x"
  proof -
    have "(2::rat) powi (la - lb - 1) = 2 powi (la - 1) / 2 powi lb"
      by (simp add: power_int_diff)
    also have "\<dots> \<le> 2 powi (la - 1) / of_int b"
      using rb(2) b by (intro divide_left_mono) (simp_all add: zero_less_power_int mult_pos_pos)
    also have "\<dots> \<le> x" unfolding x using ra(1) b by (simp add: divide_right_mono)
    finally show ?thesis .
  qed
  have e: "binade x = (if 2 powi (la - lb) \<le> x then la - lb else la - lb - 1)"
    using q by (simp add: binade_def la_def lb_def Let_def)
  show ?thesis
  proof (cases "2 powi (la - lb) \<le> x")
    case True
    with e up show ?thesis by simp
  next
    case False
    with e lo show ?thesis by simp
  qed
qed



lemma ulp_pos: "(0::rat) < 2 powi k"
  by (simp add: zero_less_power_int)



lemma roundMagnitude_lower:
  assumes "0 < x" "- 1022 \<le> binade x"
  shows "2 powi (binade x) \<le> roundMagnitude x"
proof -
  define k where "k = binade x - 52"
  have km: "max (binade x) (- 1022) - 52 = k" using assms(2) by (simp add: k_def)
  have "(of_int (2 ^ 52) :: rat) = 2 powi (k + 52) / 2 powi k" by (simp add: power_int_add)
  also have "\<dots> \<le> x / 2 powi k"
    using binade_bounds[OF assms(1)]
    by (intro divide_right_mono) (simp_all add: ulp_pos less_imp_le k_def)
  finally have "2 ^ 52 \<le> roundHalfEven (x / 2 powi k)" by (rule roundHalfEven_ge)
  then have "(of_int (2 ^ 52) :: rat) \<le> of_int (roundHalfEven (x / 2 powi k))"
    by (simp only: of_int_le_iff)
  then have A: "of_int (2 ^ 52) * (2::rat) powi k \<le> of_int (roundHalfEven (x / 2 powi k)) * 2 powi k"
    by (intro mult_right_mono) (simp_all add: ulp_pos less_imp_le)
  have B: "of_int (2 ^ 52) * 2 powi k = (2::rat) powi (binade x)"
    by (simp add: k_def power_int_diff)
  have C: "roundMagnitude x = of_int (roundHalfEven (x / 2 powi k)) * 2 powi k"
    by (simp add: roundMagnitude_def Let_def km)
  from A show ?thesis unfolding B C .
qed


lemma roundMagnitude_small_int:
  assumes "1 \<le> n" "n \<le> 2 ^ 53"
  shows "roundMagnitude (of_int n) = of_int n"
proof -
  define e where "e = binade (of_int n)"
  have pos: "(0::rat) < of_int n" using assms(1) by simp
  from binade_bounds[OF pos] have b: "2 powi e \<le> (of_int n :: rat)" "(of_int n :: rat) < 2 powi (e + 1)"
    by (simp_all add: e_def)
  have e0: "0 \<le> e"
  proof (rule ccontr)
    assume "\<not> 0 \<le> e"
    then have "e + 1 \<le> 0" by simp
    then have "(2::rat) powi (e + 1) \<le> 2 powi 0" by (intro power_int_increasing) simp_all
    with b(2) have "(of_int n :: rat) < 1" by simp
    with assms(1) show False by simp
  qed
  have e53: "e \<le> 53"
  proof (rule ccontr)
    assume "\<not> e \<le> 53"
    then have "54 \<le> e" by simp
    then have "(2::rat) powi 54 \<le> 2 powi e" by (intro power_int_increasing) simp_all
    with b(1) have "(2::rat) ^ 54 \<le> of_int n" by simp
    moreover have "(of_int n :: rat) \<le> of_int (2 ^ 53)" using assms(2) by (simp only: of_int_le_iff)
    ultimately show False by simp
  qed
  have km: "max e (- 1022) - 52 = e - 52" using e0 by simp
  show ?thesis
  proof (cases "e = 53")
    case True
    with b(1) have "(2::rat) ^ 53 \<le> of_int n" by simp
    then have "(of_int (2 ^ 53) :: rat) \<le> of_int n" by simp
    then have "2 ^ 53 \<le> n" by (simp only: of_int_le_iff)
    with assms(2) have n: "n = 2 ^ 53" by simp
    have "(of_int n :: rat) / 2 powi (e - 52) = of_int (2 ^ 52)"
      unfolding n True by simp
    then show ?thesis
      unfolding roundMagnitude_def Let_def e_def[symmetric] km
      by (simp only: roundHalfEven_of_int) (simp add: n True)
  next
    case False
    with e53 have le: "e \<le> 52" by simp
    have u: "(2::rat) powi (e - 52) = 1 / 2 ^ nat (52 - e)"
      using le by (simp add: power_int_def field_simps)
    have "(of_int n :: rat) / 2 powi (e - 52) = of_int (n * 2 ^ nat (52 - e))"
      by (simp add: u)
    then show ?thesis
      unfolding roundMagnitude_def Let_def e_def[symmetric] km
      by (simp only: roundHalfEven_of_int) (simp add: u)
  qed
qed





lemma jsLe_less_trans: "jsLessEq x y \<Longrightarrow> jsLess y z \<Longrightarrow> jsLess x z"
  by (cases x; cases y; cases z) (simp_all add: jsLessEq_def)

lemma jsLess_imp_le: "jsLess x y \<Longrightarrow> jsLessEq x y"
  by (cases x; cases y) (simp_all add: jsLessEq_def)


lemma jsLess_not_le: "jsLess x y \<Longrightarrow> \<not> jsLessEq y x"
  by (simp add: jsLessEq_def)


text \<open>
  An integer of magnitude at most \<open>2\<^sup>5\<^sup>3\<close> is a double. The equation also serves to
  evaluate \<open>roundDouble\<close> on such values without going through the exponent.
\<close>

lemma roundDouble_small_int:
  assumes "\<bar>n\<bar> \<le> 2 ^ 53"
  shows "roundDouble (of_int n) = Finite (of_int n)"
proof -
  have big: "(of_int m :: rat) < 2 ^ 1024" if "m \<le> 2 ^ 53" for m :: int
  proof -
    from that have "(of_int m :: rat) \<le> of_int (2 ^ 53)" by (simp only: of_int_le_iff)
    also have "\<dots> < 2 ^ 1024" by simp
    finally show ?thesis .
  qed
  consider (zero) "n = 0" | (pos) "1 \<le> n" | (neg) "n \<le> - 1" by linarith
  then show ?thesis
  proof cases
    case zero
    then show ?thesis by (simp add: roundDouble_def)
  next
    case pos
    with assms have le: "n \<le> 2 ^ 53" by simp
    from roundMagnitude_small_int[OF pos le] big[OF le] pos show ?thesis
      by (simp add: roundDouble_def Let_def)
  next
    case neg
    with assms have pos: "1 \<le> - n" and le: "- n \<le> 2 ^ 53" by simp_all
    from roundMagnitude_small_int[OF pos le] big[OF le] neg show ?thesis
      by (simp add: roundDouble_def Let_def)
  qed
qed

lemma roundDouble_code [code]:
  "roundDouble x =
     (if x = of_int \<lfloor>x\<rfloor> \<and> \<bar>x\<bar> \<le> 9007199254740992 then Finite x
      else if x = 0 then Finite 0
      else if 0 < x
      then (let r = roundMagnitude x
            in if of_int (2 ^ 1024) \<le> r then PosInfinity else Finite r)
      else (let r = roundMagnitude (- x)
            in if of_int (2 ^ 1024) \<le> r then NegInfinity else Finite (- r)))"
proof (cases "x = of_int \<lfloor>x\<rfloor> \<and> \<bar>x\<bar> \<le> 9007199254740992")
  case True
  then have x: "x = of_int \<lfloor>x\<rfloor>" and "\<bar>of_int \<lfloor>x\<rfloor> :: rat\<bar> \<le> of_int (2 ^ 53)" by simp_all
  then have "\<bar>\<lfloor>x\<rfloor>\<bar> \<le> 2 ^ 53"
    by (simp only: of_int_abs[symmetric] of_int_le_iff)
  from roundDouble_small_int[OF this] x True show ?thesis by simp
next
  case False
  then show ?thesis by (auto simp: roundDouble_def)
qed


text \<open>The rounded magnitude is within half a unit in the last place of the exact one.\<close>

lemma roundHalfEven_nearest: "\<bar>of_int (roundHalfEven q) - q\<bar> \<le> 1 / 2"
proof -
  have "of_int \<lfloor>q\<rfloor> \<le> q" "q < of_int \<lfloor>q\<rfloor> + 1" by linarith+
  then show ?thesis
    by (auto simp: roundHalfEven_def Let_def abs_le_iff)
qed

lemma roundMagnitude_nearest:
  "\<bar>roundMagnitude x - x\<bar> \<le> 2 powi (max (binade x) (- 1022) - 52) / 2"
proof -
  define u :: rat where "u = 2 powi (max (binade x) (- 1022) - 52)"
  have u: "0 < u" by (simp add: u_def ulp_pos)
  have "roundMagnitude x - x = (of_int (roundHalfEven (x / u)) - x / u) * u"
    using u by (simp add: roundMagnitude_def Let_def u_def[symmetric] algebra_simps)
  then have "\<bar>roundMagnitude x - x\<bar> = \<bar>of_int (roundHalfEven (x / u)) - x / u\<bar> * u"
    using u by (simp add: abs_mult)
  also have "\<dots> \<le> 1 / 2 * u"
    using roundHalfEven_nearest[of "x / u"] u by (intro mult_right_mono) simp_all
  finally show ?thesis by (simp add: u_def)
qed

text \<open>A value of \<open>2\<^sup>1\<^sup>0\<^sup>2\<^sup>4\<close> or more overflows to \<^verbatim>\<open>Infinity\<close>.\<close>

lemma roundDouble_overflow:
  assumes "2 ^ 1024 \<le> x"
  shows "roundDouble x = PosInfinity"
proof -
  have pos: "0 < x" using assms by (simp add: less_le_trans[of 0 "2 ^ 1024" x])
  have e: "1024 \<le> binade x"
  proof (rule ccontr)
    assume "\<not> 1024 \<le> binade x"
    then have "binade x + 1 \<le> 1024" by simp
    then have "(2::rat) powi (binade x + 1) \<le> 2 powi 1024"
      by (intro power_int_increasing) simp_all
    with binade_bounds[OF pos] assms show False by simp
  qed
  then have "(2::rat) powi 1024 \<le> 2 powi (binade x)"
    by (intro power_int_increasing) simp_all
  also have "\<dots> \<le> roundMagnitude x"
    using e by (intro roundMagnitude_lower[OF pos]) simp
  finally have "2 ^ 1024 \<le> roundMagnitude x" by simp
  with pos show ?thesis by (simp add: roundDouble_def Let_def)
qed

text \<open>
  Rounding at work: a tie goes to the even neighbour, in both directions, and one tenth
  is not a double.
\<close>

lemma roundDouble_examples:
  "roundDouble (2 ^ 53 + 1) = Finite (2 ^ 53)"
  "roundDouble (2 ^ 53 + 3) = Finite (2 ^ 53 + 4)"
  "roundDouble (1 / 10) = Finite (3602879701896397 / 36028797018963968)"
  by code_simp+

section \<open>Properties of the loops\<close>

subsection \<open>findBestTrade keeps its best pair valid\<close>

lemma priceAt_in_range:
  "0 \<le> i \<Longrightarrow> i < int (length prices) \<Longrightarrow> priceAt prices i = Inr (prices ! nat i)"
  by (simp add: priceAt_def)

lemma innerBody_good:
  assumes "goodSearch prices st" "0 \<le> currentIndex" "currentIndex < futureIndex"
    "futureIndex < int (length prices)"
  shows "\<exists>st3. innerBody prices currentIndex futureIndex st = Inr st3 \<and> goodSearch prices st3"
  using assms by (auto simp: innerBody_def goodSearch_def priceAt_in_range Let_def)

lemma innerBody_gainful:
  assumes "goodSearch prices st" "0 \<le> currentIndex" "currentIndex < futureIndex"
    "futureIndex < int (length prices)" "gainful prices st"
    and "innerBody prices currentIndex futureIndex st = Inr st3"
  shows "gainful prices st3"
proof -
  let ?pp = "jsSub (prices ! nat futureIndex) (prices ! nat currentIndex)"
  let ?base = "jsSub (prices ! nat (bestSellIndex st)) (prices ! nat (bestBuyIndex st))"
  have "jsLessEq (Finite 0) ?pp" if "jsGreater ?pp ?base"
    using that assms(5) jsLe_less_trans[of "Finite 0" ?base ?pp] jsLess_imp_le
    by (simp add: gainful_def jsGreater_def)
  with assms show ?thesis
    by (auto simp: innerBody_def goodSearch_def gainful_def priceAt_in_range Let_def
        split: if_splits)
qed

lemma innerLoop_good:
  "goodSearch prices st \<Longrightarrow> 0 \<le> currentIndex \<Longrightarrow> currentIndex < futureIndex \<Longrightarrow>
   \<exists>st'. innerLoop prices currentIndex futureIndex st = Inr st' \<and> goodSearch prices st'"
proof (induction prices currentIndex futureIndex st rule: innerLoop.induct)
  case (1 prices currentIndex futureIndex st)
  show ?case
  proof (cases "futureIndex < int (length prices)")
    case False
    with "1.prems"(1) show ?thesis
      by (simp add: innerLoop.simps[of prices currentIndex futureIndex st])
  next
    case True
    from innerBody_good[OF "1.prems" True] obtain st3 where
      body: "innerBody prices currentIndex futureIndex st = Inr st3"
      and g3: "goodSearch prices st3" by blast
    from "1.IH"[OF True body g3 "1.prems"(2)] "1.prems"(3) True body
    show ?thesis
      by (simp add: innerLoop.simps[of prices currentIndex futureIndex st])
  qed
qed

lemma outerLoop_good:
  "goodSearch prices st \<Longrightarrow> 0 \<le> currentIndex \<Longrightarrow>
   \<exists>b s. outerLoop prices currentIndex st = Inr (b, s) \<and> 0 \<le> b \<and> b \<le> s
     \<and> s < int (length prices)"
proof (induction prices currentIndex st rule: outerLoop.induct)
  case (1 prices currentIndex st)
  note unfold = outerLoop.simps[of prices currentIndex st]
  show ?case
  proof (cases "currentIndex < int (length prices) - 1")
    case False
    with "1.prems" show ?thesis by (simp add: unfold goodSearch_def)
  next
    case True
    have "goodSearch prices (st\<lparr>isOptimalFound := True, minPriceDrop := Finite 0\<rparr>)"
      using "1.prems"(1) by (simp add: goodSearch_def)
    from innerLoop_good[OF this "1.prems"(2), of "currentIndex + 1"]
    obtain st' where run: "innerLoop prices currentIndex (currentIndex + 1)
        (st\<lparr>isOptimalFound := True, minPriceDrop := Finite 0\<rparr>) = Inr st'"
      and g': "goodSearch prices st'" by auto
    show ?thesis
    proof (cases "isOptimalFound st'")
      case True
      with \<open>currentIndex < int (length prices) - 1\<close> run g' show ?thesis
        by (simp add: unfold goodSearch_def)
    next
      case nopt: False
      show ?thesis
      proof (cases "nextTradeStartIndex st' \<ge> 1
                     \<and> nextTradeStartIndex st' \<le> int (length prices) - 2")
        case jump: True
        have "outerLoop prices currentIndex st
              = outerLoop prices (nextTradeStartIndex st' - 1 + 1) st'"
          using jump True run nopt by (auto simp: unfold)
        moreover have "0 \<le> nextTradeStartIndex st' - 1 + 1" using jump by simp
        ultimately show ?thesis
          using "1.IH"(1)[OF True run nopt jump g'] by simp
      next
        case nojump: False
        have "outerLoop prices currentIndex st = outerLoop prices (currentIndex + 1) st'"
          using nojump True run nopt by (auto simp: unfold)
        moreover have "0 \<le> currentIndex + 1" using "1.prems"(2) by simp
        ultimately show ?thesis
          using "1.IH"(2)[OF True run nopt nojump g'] by simp
      qed
    qed
  qed
qed

lemma findBestTrade_good:
  "prices \<noteq> [] \<Longrightarrow>
   \<exists>b s. findBestTrade prices = Inr (b, s) \<and> 0 \<le> b \<and> b \<le> s
     \<and> s < int (length prices)"
  unfolding findBestTrade_def
  by (rule outerLoop_good) (simp_all add: goodSearch_def initialSearch_def)

lemma findBestTrade_short:
  "length prices < 2 \<Longrightarrow> findBestTrade prices = Inr (0, 0)"
  by (simp add: findBestTrade_def initialSearch_def outerLoop.simps)

lemma innerLoop_gainful:
  "goodSearch prices st \<Longrightarrow> gainful prices st \<Longrightarrow> 0 \<le> currentIndex \<Longrightarrow>
   currentIndex < futureIndex \<Longrightarrow>
   innerLoop prices currentIndex futureIndex st = Inr st' \<Longrightarrow> gainful prices st'"
proof (induction prices currentIndex futureIndex st rule: innerLoop.induct)
  case (1 prices currentIndex futureIndex st)
  note unfold = innerLoop.simps[of prices currentIndex futureIndex st]
  show ?case
  proof (cases "futureIndex < int (length prices)")
    case False
    with "1.prems"(5) have "st' = st" by (simp add: unfold)
    with "1.prems"(2) show ?thesis by simp
  next
    case True
    from innerBody_good[OF "1.prems"(1,3,4) True] obtain st3 where
      body: "innerBody prices currentIndex futureIndex st = Inr st3"
      and g3: "goodSearch prices st3" by blast
    have p3: "gainful prices st3"
      by (rule innerBody_gainful[OF "1.prems"(1,3,4) True "1.prems"(2) body])
    from "1.prems"(5) True body
    have rest: "innerLoop prices currentIndex (futureIndex + 1) st3 = Inr st'"
      by (simp add: unfold)
    have "currentIndex < futureIndex + 1" using "1.prems"(4) by simp
    from "1.IH"[OF True body g3 p3 "1.prems"(3) this rest] show ?thesis .
  qed
qed

lemma outerLoop_gainful:
  "goodSearch prices st \<Longrightarrow> gainful prices st \<Longrightarrow> 0 \<le> currentIndex \<Longrightarrow>
   outerLoop prices currentIndex st = Inr (b, s) \<Longrightarrow>
   jsLessEq (Finite 0) (jsSub (prices ! nat s) (prices ! nat b))"
proof (induction prices currentIndex st rule: outerLoop.induct)
  case (1 prices currentIndex st)
  note unfold = outerLoop.simps[of prices currentIndex st]
  show ?case
  proof (cases "currentIndex < int (length prices) - 1")
    case False
    with "1.prems"(2,4) show ?thesis by (auto simp: unfold gainful_def)
  next
    case True
    let ?st0 = "st\<lparr>isOptimalFound := True, minPriceDrop := Finite 0\<rparr>"
    have g0: "goodSearch prices ?st0" and p0: "gainful prices ?st0"
      using "1.prems"(1,2) by (simp_all add: goodSearch_def gainful_def)
    have lt: "currentIndex < currentIndex + 1" by simp
    from innerLoop_good[OF g0 "1.prems"(3) lt]
    obtain st' where run: "innerLoop prices currentIndex (currentIndex + 1) ?st0 = Inr st'"
      and g': "goodSearch prices st'" by auto
    have p': "gainful prices st'"
      by (rule innerLoop_gainful[OF g0 p0 "1.prems"(3) lt run])
    show ?thesis
    proof (cases "isOptimalFound st'")
      case True
      with \<open>currentIndex < int (length prices) - 1\<close> run "1.prems"(4) p' show ?thesis
        by (auto simp: unfold gainful_def)
    next
      case nopt: False
      show ?thesis
      proof (cases "nextTradeStartIndex st' \<ge> 1
                     \<and> nextTradeStartIndex st' \<le> int (length prices) - 2")
        case jump: True
        have "outerLoop prices (nextTradeStartIndex st' - 1 + 1) st' = Inr (b, s)"
          using jump True run nopt "1.prems"(4) by (auto simp: unfold)
        moreover have "0 \<le> nextTradeStartIndex st' - 1 + 1" using jump by simp
        ultimately show ?thesis
          using "1.IH"(1)[OF True run nopt jump g' p'] by simp
      next
        case nojump: False
        have "outerLoop prices (currentIndex + 1) st' = Inr (b, s)"
          using nojump True run nopt "1.prems"(4) by (auto simp: unfold)
        moreover have "0 \<le> currentIndex + 1" using "1.prems"(3) by simp
        ultimately show ?thesis
          using "1.IH"(2)[OF True run nopt nojump g' p'] by simp
      qed
    qed
  qed
qed

lemma fastLoop_valid:
  "fastValid prices i minPriceIndex bestBuy bestSell \<Longrightarrow>
   \<exists>b s. fastLoop prices i minPriceIndex maxProfit bestBuy bestSell = Inr (b, s)
     \<and> 0 \<le> b \<and> b \<le> s \<and> s < int (length prices)"
proof (induction prices i minPriceIndex maxProfit bestBuy bestSell rule: fastLoop.induct)
  case (1 prices i m mp bb bs)
  note unfold = fastLoop.simps[of prices i m mp bb bs]
  note v = "1.prems"[unfolded fastValid_def]
  show ?case
  proof (cases "i < int (length prices)")
    case False
    then have "fastLoop prices i m mp bb bs = Inr (bb, bs)" by (simp add: unfold)
    with v show ?thesis by auto
  next
    case True
    from v True have r: "priceAt prices i = Inr (prices ! nat i)"
        "priceAt prices m = Inr (prices ! nat m)"
      by (simp_all add: priceAt_in_range)
    show ?thesis
    proof (cases "jsLess (prices ! nat i) (prices ! nat m)")
      case less: True
      have "fastValid prices (i + 1) i bb bs" using v True by (simp add: fastValid_def)
      from "1.IH"(1)[OF True r less this] True r less
      show ?thesis by (simp add: unfold)
    next
      case ge: False
      show ?thesis
      proof (cases "jsGreater (jsSub (prices ! nat i) (prices ! nat m)) mp")
        case better: True
        have "fastValid prices (i + 1) m m i" using v True by (simp add: fastValid_def)
        from "1.IH"(2)[OF True r ge refl better this] True r ge better
        show ?thesis by (simp add: unfold Let_def)
      next
        case nobetter: False
        have "fastValid prices (i + 1) m bb bs" using v True by (simp add: fastValid_def)
        from "1.IH"(3)[OF True r ge refl nobetter this] True r ge nobetter
        show ?thesis by (simp add: unfold Let_def)
      qed
    qed
  qed
qed

lemma findBestTradeFast_valid:
  "\<exists>b s. findBestTradeFast prices = Inr (b, s) \<and> 0 \<le> b \<and> b \<le> s
     \<and> (prices \<noteq> [] \<longrightarrow> s < int (length prices))"
proof (cases "length prices < 2")
  case True
  then show ?thesis by (cases prices) (simp_all add: findBestTradeFast_def)
next
  case False
  then have "fastValid prices 1 0 0 0" by (simp add: fastValid_def)
  from fastLoop_valid[OF this, of "Finite 0"] False show ?thesis
    by (auto simp: findBestTradeFast_def)
qed

lemma innerBodyCached_sim:
  assumes "goodSearch prices st" "0 \<le> currentIndex" "currentIndex < futureIndex"
    "futureIndex < int (length prices)"
    and "innerBody prices currentIndex futureIndex st = Inr st3"
  shows "innerBodyCached True prices currentIndex futureIndex (cached prices st)
         = Inr (cached prices st3)"
  using assms
  by (auto simp: innerBody_def innerBodyCached_def cached_def goodSearch_def priceAt_in_range Let_def
      split: if_splits)

lemma innerLoopCached_sim:
  "goodSearch prices st \<Longrightarrow> 0 \<le> currentIndex \<Longrightarrow> currentIndex < futureIndex \<Longrightarrow>
   innerLoop prices currentIndex futureIndex st = Inr st' \<Longrightarrow>
   innerLoopCached True prices currentIndex futureIndex (cached prices st)
     = Inr (cached prices st')"
proof (induction prices currentIndex futureIndex st rule: innerLoop.induct)
  case (1 prices currentIndex futureIndex st)
  note unfold = innerLoop.simps[of prices currentIndex futureIndex st]
  note unfoldC = innerLoopCached.simps[of True prices currentIndex futureIndex "cached prices st"]
  show ?case
  proof (cases "futureIndex < int (length prices)")
    case False
    with "1.prems"(4) have "st' = st" by (simp add: unfold)
    with False show ?thesis by (simp add: unfoldC)
  next
    case True
    from innerBody_good[OF "1.prems"(1,2,3) True] obtain st3 where
      body: "innerBody prices currentIndex futureIndex st = Inr st3"
      and g3: "goodSearch prices st3" by blast
    from "1.prems"(4) True body
    have rest: "innerLoop prices currentIndex (futureIndex + 1) st3 = Inr st'"
      by (simp add: unfold)
    have "currentIndex < futureIndex + 1" using "1.prems"(3) by simp
    from "1.IH"[OF True body g3 "1.prems"(2) this rest]
      innerBodyCached_sim[OF "1.prems"(1,2,3) True body] True
    show ?thesis by (simp add: unfoldC)
  qed
qed

lemma outerLoopCached_sim:
  "goodSearch prices st \<Longrightarrow> 0 \<le> currentIndex \<Longrightarrow>
   outerLoopCached True prices currentIndex (st\<lparr>currentBestProfit := x\<rparr>)
     = outerLoop prices currentIndex st"
proof (induction prices currentIndex st arbitrary: x rule: outerLoop.induct)
  case (1 prices currentIndex st)
  note unfold = outerLoop.simps[of prices currentIndex st]
  note unfoldC = outerLoopCached.simps[of True prices currentIndex "st\<lparr>currentBestProfit := x\<rparr>"]
  show ?case
  proof (cases "currentIndex < int (length prices) - 1")
    case False
    then show ?thesis by (simp add: unfold unfoldC)
  next
    case True
    let ?st0 = "st\<lparr>isOptimalFound := True, minPriceDrop := Finite 0\<rparr>"
    have g0: "goodSearch prices ?st0"
      using "1.prems"(1) by (simp add: goodSearch_def)
    have lt: "currentIndex < currentIndex + 1" by simp
    from innerLoop_good[OF g0 "1.prems"(2) lt]
    obtain st' where run: "innerLoop prices currentIndex (currentIndex + 1) ?st0 = Inr st'"
      and g': "goodSearch prices st'" by auto
    have r: "priceAt prices (bestSellIndex st) = Inr (prices ! nat (bestSellIndex st))"
      "priceAt prices (bestBuyIndex st) = Inr (prices ! nat (bestBuyIndex st))"
      using "1.prems"(1) by (simp_all add: goodSearch_def priceAt_in_range)
    have start: "st\<lparr>currentBestProfit := x, isOptimalFound := True, minPriceDrop := Finite 0,
                   currentBestProfit := jsSub (prices ! nat (bestSellIndex st))
                     (prices ! nat (bestBuyIndex st))\<rparr> = cached prices ?st0"
      by (simp add: cached_def)
    have runC: "innerLoopCached True prices currentIndex (currentIndex + 1) (cached prices ?st0)
        = Inr (cached prices st')"
      by (rule innerLoopCached_sim[OF g0 "1.prems"(2) lt run])
    have c': "cached prices st' = st'\<lparr>currentBestProfit :=
          jsSub (prices ! nat (bestSellIndex st')) (prices ! nat (bestBuyIndex st'))\<rparr>"
      by (simp add: cached_def)
    show ?thesis
    proof (cases "isOptimalFound st'")
      case True
      with \<open>currentIndex < int (length prices) - 1\<close> run runC r start show ?thesis
        by (simp add: unfold unfoldC cached_def)
    next
      case nopt: False
      show ?thesis
      proof (cases "nextTradeStartIndex st' \<ge> 1
                     \<and> nextTradeStartIndex st' \<le> int (length prices) - 2")
        case jump: True
        have a: "outerLoop prices currentIndex st
              = outerLoop prices (nextTradeStartIndex st' - 1 + 1) st'"
          using jump True run nopt by (auto simp: unfold)
        have b: "outerLoopCached True prices currentIndex (st\<lparr>currentBestProfit := x\<rparr>)
              = outerLoopCached True prices (nextTradeStartIndex st' - 1 + 1) (cached prices st')"
          using jump True runC nopt r start by (auto simp: unfoldC cached_def)
        have "0 \<le> nextTradeStartIndex st' - 1 + 1" using jump by simp
        from "1.IH"(1)[OF True run nopt jump g' this] a b c' show ?thesis by simp
      next
        case nojump: False
        have a: "outerLoop prices currentIndex st = outerLoop prices (currentIndex + 1) st'"
          using nojump True run nopt by (auto simp: unfold)
        have b: "outerLoopCached True prices currentIndex (st\<lparr>currentBestProfit := x\<rparr>)
              = outerLoopCached True prices (currentIndex + 1) (cached prices st')"
          using nojump True runC nopt r start by (auto simp: unfoldC cached_def)
        have "0 \<le> currentIndex + 1" using "1.prems"(2) by simp
        from "1.IH"(2)[OF True run nopt nojump g' this] a b c' show ?thesis by simp
      qed
    qed
  qed
qed

lemma outerIndices_length:
  "length (outerIndices prices currentIndex st) \<le> nat (int (length prices) - 1 - currentIndex)"
proof (induction prices currentIndex st rule: outerIndices.induct)
  case (1 prices currentIndex st)
  note unfold = outerIndices.simps[of prices currentIndex st]
  show ?case
  proof (cases "currentIndex < int (length prices) - 1")
    case False
    then show ?thesis by (simp add: unfold)
  next
    case True
    show ?thesis
    proof (cases "innerLoop prices currentIndex (currentIndex + 1)
                (st\<lparr>isOptimalFound := True, minPriceDrop := Finite 0\<rparr>)")
      case (Inl e)
      with True show ?thesis by (simp add: unfold)
    next
      case (Inr st')
      from innerLoop_restart[OF Inr]
      have after: "isOptimalFound st' \<or> currentIndex < nextTradeStartIndex st'" by simp
      show ?thesis
      proof (cases "isOptimalFound st'")
        case True
        with \<open>currentIndex < int (length prices) - 1\<close> Inr show ?thesis by (simp add: unfold)
      next
        case nopt: False
        show ?thesis
        proof (cases "nextTradeStartIndex st' \<ge> 1
                     \<and> nextTradeStartIndex st' \<le> int (length prices) - 2")
          case jump: True
          from "1.IH"(1)[OF True Inr nopt jump] jump True Inr nopt after
          show ?thesis by (auto simp: unfold)
        next
          case nojump: False
          from "1.IH"(2)[OF True Inr nopt nojump] nojump True Inr nopt
          show ?thesis by (auto simp: unfold)
        qed
      qed
    qed
  qed
qed

lemma outerIndices_increasing:
  "sorted_wrt (<) (outerIndices prices currentIndex st)
   \<and> (\<forall>x \<in> set (outerIndices prices currentIndex st). currentIndex \<le> x)"
proof (induction prices currentIndex st rule: outerIndices.induct)
  case (1 prices currentIndex st)
  note unfold = outerIndices.simps[of prices currentIndex st]
  show ?case
  proof (cases "currentIndex < int (length prices) - 1")
    case False
    then show ?thesis by (simp add: unfold)
  next
    case True
    show ?thesis
    proof (cases "innerLoop prices currentIndex (currentIndex + 1)
                (st\<lparr>isOptimalFound := True, minPriceDrop := Finite 0\<rparr>)")
      case (Inl e)
      with True show ?thesis by (simp add: unfold)
    next
      case (Inr st')
      from innerLoop_restart[OF Inr]
      have after: "isOptimalFound st' \<or> currentIndex < nextTradeStartIndex st'" by simp
      show ?thesis
      proof (cases "isOptimalFound st'")
        case True
        with \<open>currentIndex < int (length prices) - 1\<close> Inr show ?thesis by (simp add: unfold)
      next
        case nopt: False
        show ?thesis
        proof (cases "nextTradeStartIndex st' \<ge> 1
                     \<and> nextTradeStartIndex st' \<le> int (length prices) - 2")
          case jump: True
          from "1.IH"(1)[OF True Inr nopt jump] jump True Inr nopt after
          show ?thesis by (fastforce simp: unfold)
        next
          case nojump: False
          from "1.IH"(2)[OF True Inr nopt nojump] nojump True Inr nopt
          show ?thesis by (fastforce simp: unfold)
        qed
      qed
    qed
  qed
qed

lemma outerLoopFuel_enough:
  "nat (int (length prices) - 1 - currentIndex) \<le> fuel \<Longrightarrow>
   outerLoopFuel fuel prices currentIndex st = Some (outerLoop prices currentIndex st)"
proof (induction fuel arbitrary: currentIndex st)
  case 0
  then have "\<not> currentIndex < int (length prices) - 1" by simp
  then show ?case
    by (simp add: outerLoopFuel.simps[of 0 prices currentIndex st]
        outerLoop.simps[of prices currentIndex st])
next
  case (Suc fuel)
  note unfoldF = outerLoopFuel.simps[of "Suc fuel" prices currentIndex st]
  note unfold = outerLoop.simps[of prices currentIndex st]
  show ?case
  proof (cases "currentIndex < int (length prices) - 1")
    case False
    then show ?thesis by (simp add: unfoldF unfold)
  next
    case True
    show ?thesis
    proof (cases "innerLoop prices currentIndex (currentIndex + 1)
                (st\<lparr>isOptimalFound := True, minPriceDrop := Finite 0\<rparr>)")
      case (Inl e)
      with True show ?thesis by (simp add: unfoldF unfold)
    next
      case (Inr st')
      from innerLoop_restart[OF Inr]
      have after: "isOptimalFound st' \<or> currentIndex < nextTradeStartIndex st'" by simp
      show ?thesis
      proof (cases "isOptimalFound st'")
        case True
        with \<open>currentIndex < int (length prices) - 1\<close> Inr show ?thesis
          by (simp add: unfoldF unfold)
      next
        case nopt: False
        show ?thesis
        proof (cases "nextTradeStartIndex st' \<ge> 1
                     \<and> nextTradeStartIndex st' \<le> int (length prices) - 2")
          case jump: True
          have "nat (int (length prices) - 1 - (nextTradeStartIndex st' - 1 + 1)) \<le> fuel"
            using Suc.prems after nopt by simp
          from Suc.IH[OF this, of st'] jump True Inr nopt
          show ?thesis by (simp add: unfoldF unfold)
        next
          case nojump: False
          have "nat (int (length prices) - 1 - (currentIndex + 1)) \<le> fuel"
            using Suc.prems by simp
          from Suc.IH[OF this, of st'] nojump True Inr nopt
          show ?thesis by (auto simp: unfoldF unfold)
        qed
      qed
    qed
  qed
qed

subsection \<open>findBestTradeFast on finite prices\<close>


lemma roundDouble_zero: "roundDouble 0 = Finite 0"
  by (simp add: roundDouble_def)








subsection \<open>The best pair does not lose\<close>

lemma fastLoop_gainful:
  "fastValid prices i minPriceIndex bestBuy bestSell \<Longrightarrow>
   jsLessEq (Finite 0) maxProfit \<Longrightarrow>
   (bestBuy = 0 \<and> bestSell = 0)
     \<or> jsSub (prices ! nat bestSell) (prices ! nat bestBuy) = maxProfit \<Longrightarrow>
   fastLoop prices i minPriceIndex maxProfit bestBuy bestSell = Inr (b, s) \<Longrightarrow>
   (b = 0 \<and> s = 0) \<or> jsLessEq (Finite 0) (jsSub (prices ! nat s) (prices ! nat b))"
proof (induction prices i minPriceIndex maxProfit bestBuy bestSell rule: fastLoop.induct)
  case (1 prices i m mp bb bs)
  note unfold = fastLoop.simps[of prices i m mp bb bs]
  note v = "1.prems"(1)[unfolded fastValid_def]
  show ?case
  proof (cases "i < int (length prices)")
    case False
    with "1.prems"(4) have "b = bb" "s = bs" by (simp_all add: unfold)
    with "1.prems"(2,3) show ?thesis by auto
  next
    case True
    from v True have r: "priceAt prices i = Inr (prices ! nat i)"
        "priceAt prices m = Inr (prices ! nat m)"
      by (simp_all add: priceAt_in_range)
    show ?thesis
    proof (cases "jsLess (prices ! nat i) (prices ! nat m)")
      case less: True
      have val: "fastValid prices (i + 1) i bb bs" using v True by (simp add: fastValid_def)
      have run: "fastLoop prices (i + 1) i mp bb bs = Inr (b, s)"
        using "1.prems"(4) True r less by (simp add: unfold)
      from "1.IH"(1)[OF True r less val "1.prems"(2,3) run] show ?thesis .
    next
      case ge: False
      let ?cp = "jsSub (prices ! nat i) (prices ! nat m)"
      show ?thesis
      proof (cases "jsGreater ?cp mp")
        case better: True
        have val: "fastValid prices (i + 1) m m i" using v True by (simp add: fastValid_def)
        have cp0: "jsLessEq (Finite 0) ?cp"
          using "1.prems"(2) better jsLe_less_trans[of "Finite 0" mp ?cp] jsLess_imp_le
          by (simp add: jsGreater_def)
        have run: "fastLoop prices (i + 1) m ?cp m i = Inr (b, s)"
          using "1.prems"(4) True r ge better by (simp add: unfold Let_def)
        from "1.IH"(2)[OF True r ge refl better val cp0 _ run] show ?thesis by simp
      next
        case nobetter: False
        have val: "fastValid prices (i + 1) m bb bs" using v True by (simp add: fastValid_def)
        have run: "fastLoop prices (i + 1) m mp bb bs = Inr (b, s)"
          using "1.prems"(4) True r ge nobetter by (simp add: unfold Let_def)
        from "1.IH"(3)[OF True r ge refl nobetter val "1.prems"(2,3) run] show ?thesis .
      qed
    qed
  qed
qed

lemma jsSub_self_finite: "isFinite x \<Longrightarrow> jsSub x x = Finite 0"
  by (cases x) (simp_all add: isFinite_def roundDouble_zero)

section \<open>The claims of the specification\<close>

subsection \<open>Agreement of the two finders\<close>

text \<open>
  Claim C1 says that the pairs returned by \<^verbatim>\<open>findBestTrade\<close> and \<^verbatim>\<open>findBestTradeFast\<close>
  realize the same profit on every price sequence. On \<open>[10, 5, 8, 1, 2]\<close> the quadratic
  finder returns \<open>(3, 4)\<close>, profit \<open>1\<close>, and the single pass returns \<open>(1, 2)\<close>, profit \<open>3\<close>:
  the first outer iteration records index \<open>3\<close> as the deepest drop and restarts there, so
  the buy candidate at index \<open>1\<close> is never tried.
\<close>

theorem findBestTrade_disagrees_with_fast:
  "findBestTrade [Finite 10, Finite 5, Finite 8, Finite 1, Finite 2] = Inr (3, 4)
   \<and> findBestTradeFast [Finite 10, Finite 5, Finite 8, Finite 1, Finite 2] = Inr (1, 2)
   \<and> realizedProfit [Finite 10, Finite 5, Finite 8, Finite 1, Finite 2] (3, 4) = Finite 1
   \<and> realizedProfit [Finite 10, Finite 5, Finite 8, Finite 1, Finite 2] (1, 2) = Finite 3"
  by code_simp

subsection \<open>Maximality\<close>

text \<open>
  Claim C2 says that \<^verbatim>\<open>findBestTrade\<close> returns a pair of maximal profit among the pairs
  with the buy index before the sell index. On \<open>[10, 5, 8, 1, 2]\<close> it returns \<open>(3, 4)\<close>,
  whose profit is smaller than the profit of the pair \<open>(1, 2)\<close>.
\<close>

theorem findBestTrade_misses_maximum:
  "findBestTrade [Finite 10, Finite 5, Finite 8, Finite 1, Finite 2] = Inr (3, 4)
   \<and> jsLess (jsSub ([Finite 10, Finite 5, Finite 8, Finite 1, Finite 2] ! 4) ([Finite 10, Finite 5, Finite 8, Finite 1, Finite 2] ! 3)) (jsSub ([Finite 10, Finite 5, Finite 8, Finite 1, Finite 2] ! 2) ([Finite 10, Finite 5, Finite 8, Finite 1, Finite 2] ! 1))"
  by code_simp




subsection \<open>The concrete scenarios\<close>

text \<open>
  Claim C4: on each input of the test table of \<^verbatim>\<open>src/src/profitTest.ts\<close> both finders
  return the expected pair.
\<close>

theorem concrete_scenarios:
  "findBestTrade [Finite 7, Finite 1, Finite 5, Finite 3, Finite 6, Finite 4] = Inr (1, 4)
   \<and> findBestTradeFast [Finite 7, Finite 1, Finite 5, Finite 3, Finite 6, Finite 4] = Inr (1, 4)
   \<and> findBestTrade [Finite 7, Finite 6, Finite 4, Finite 3, Finite 1] = Inr (0, 0)
   \<and> findBestTradeFast [Finite 7, Finite 6, Finite 4, Finite 3, Finite 1] = Inr (0, 0)
   \<and> findBestTrade [Finite 1, Finite 2, Finite 3, Finite 4, Finite 5] = Inr (0, 4)
   \<and> findBestTradeFast [Finite 1, Finite 2, Finite 3, Finite 4, Finite 5] = Inr (0, 4)
   \<and> findBestTrade [Finite 3, Finite 3, Finite 3] = Inr (0, 0)
   \<and> findBestTradeFast [Finite 3, Finite 3, Finite 3] = Inr (0, 0)
   \<and> findBestTrade [Finite 20, Finite 18, Finite 15, Finite 8, Finite 3, Finite 6, Finite 10, Finite 4, Finite 12] = Inr (4, 8)
   \<and> findBestTradeFast [Finite 20, Finite 18, Finite 15, Finite 8, Finite 3, Finite 6, Finite 10, Finite 4, Finite 12] = Inr (4, 8)
   \<and> findBestTrade [] = Inr (0, 0)
   \<and> findBestTradeFast [] = Inr (0, 0)
   \<and> findBestTrade [Finite 5] = Inr (0, 0)
   \<and> findBestTradeFast [Finite 5] = Inr (0, 0)
   \<and> findBestTrade [Finite 1, Finite 12, Finite 1, Finite 12] = Inr (0, 1)
   \<and> findBestTradeFast [Finite 1, Finite 12, Finite 1, Finite 12] = Inr (0, 1)"
  by (intro conjI; code_simp)

subsection \<open>Valid indices, no fault, no loss\<close>

text \<open>
  Claim C5: on a sequence of at least two prices, both finders return a pair
  \<open>(buyIndex, sellIndex)\<close> with \<open>0 \<le> buyIndex \<le> sellIndex \<le> n - 1\<close>.
\<close>

theorem indices_valid:
  "2 \<le> length prices \<Longrightarrow>
   (\<exists>b s. findBestTrade prices = Inr (b, s)
      \<and> 0 \<le> b \<and> b \<le> s \<and> s \<le> int (length prices) - 1)
   \<and> (\<exists>b s. findBestTradeFast prices = Inr (b, s)
      \<and> 0 \<le> b \<and> b \<le> s \<and> s \<le> int (length prices) - 1)"
proof
  assume len: "2 \<le> length prices"
  then have "prices \<noteq> []" by auto
  from findBestTrade_good[OF this]
  show "\<exists>b s. findBestTrade prices = Inr (b, s)
      \<and> 0 \<le> b \<and> b \<le> s \<and> s \<le> int (length prices) - 1"
    by fastforce
next
  assume len: "2 \<le> length prices"
  then have "prices \<noteq> []" by auto
  with findBestTradeFast_valid[of prices]
  show "\<exists>b s. findBestTradeFast prices = Inr (b, s)
      \<and> 0 \<le> b \<and> b \<le> s \<and> s \<le> int (length prices) - 1"
    by fastforce
qed

theorem indices_valid_witness:
  "2 \<le> length [Finite 7, Finite 1, Finite 5]
   \<and> (\<exists>b s. findBestTrade [Finite 7, Finite 1, Finite 5] = Inr (b, s)
        \<and> 0 \<le> b \<and> b \<le> s \<and> s \<le> 2)
   \<and> (\<exists>b s. findBestTradeFast [Finite 7, Finite 1, Finite 5] = Inr (b, s)
        \<and> 0 \<le> b \<and> b \<le> s \<and> s \<le> 2)"
  using indices_valid[of "[Finite 7, Finite 1, Finite 5]"] by simp

text \<open>
  Claim C6: both finders return a pair on every sequence, and no read of the array is out
  of bounds: a read out of bounds would make the result \<open>Inl OutOfBounds\<close>.
\<close>

theorem finders_total:
  "(\<exists>t. findBestTrade prices = Inr t) \<and> (\<exists>t. findBestTradeFast prices = Inr t)"
proof
  show "\<exists>t. findBestTrade prices = Inr t"
  proof (cases "prices = []")
    case True
    then show ?thesis by (simp add: findBestTrade_short)
  next
    case False
    from findBestTrade_good[OF this] show ?thesis by blast
  qed
  from findBestTradeFast_valid[of prices] show "\<exists>t. findBestTradeFast prices = Inr t"
    by blast
qed

theorem finders_total_witness:
  "(\<exists>t. findBestTrade [Finite 3, NaN, PosInfinity] = Inr t)
   \<and> (\<exists>t. findBestTradeFast [Finite 3, NaN, PosInfinity] = Inr t)"
  by (rule finders_total[of "[Finite 3, NaN, PosInfinity]"])

text \<open>
  Claim C7 says that the realized profit of the returned pair is at least \<open>0\<close> on every
  input. On \<open>[Infinity]\<close> both finders return \<open>(0, 0)\<close>, whose profit
  \<open>Infinity - Infinity\<close> is \<^verbatim>\<open>NaN\<close>, and \<^verbatim>\<open>NaN >= 0\<close> is false.
\<close>

theorem profit_can_be_NaN:
  "findBestTrade [PosInfinity] = Inr (0, 0)
   \<and> findBestTradeFast [PosInfinity] = Inr (0, 0)
   \<and> realizedProfit [PosInfinity] (0, 0) = NaN
   \<and> \<not> jsGreaterEq (realizedProfit [PosInfinity] (0, 0)) (Finite 0)"
  by code_simp

text \<open>
  Claim C7, amended: on a sequence that is empty or whose first element is a finite number,
  the realized profit of the pair returned by either finder is \<open>>= 0\<close>. The other elements
  may be any numbers: a pair replaces the initial \<open>(0, 0)\<close> only when its profit compares
  greater than a baseline that is itself \<open>>= 0\<close>.
\<close>

theorem profit_nonnegative:
  assumes "prices \<noteq> [] \<longrightarrow> isFinite (prices ! 0)"
  shows "(\<exists>t. findBestTrade prices = Inr t \<and> jsGreaterEq (realizedProfit prices t) (Finite 0))
   \<and> (\<exists>t. findBestTradeFast prices = Inr t \<and> jsGreaterEq (realizedProfit prices t) (Finite 0))"
proof (cases "prices = []")
  case True
  then show ?thesis
    by (simp add: findBestTrade_short findBestTradeFast_def realizedProfit_def
        jsGreaterEq_def jsLessEq_def)
next
  case False
  with assms have first: "jsSub (prices ! 0) (prices ! 0) = Finite 0"
    by (simp add: jsSub_self_finite)
  have z: "jsLessEq (Finite 0) (Finite 0)" by (simp add: jsLessEq_def)
  have quad: "\<exists>t. findBestTrade prices = Inr t \<and> jsGreaterEq (realizedProfit prices t) (Finite 0)"
  proof -
    have g: "goodSearch prices initialSearch" and p: "gainful prices initialSearch"
      using False first z by (simp_all add: goodSearch_def gainful_def initialSearch_def)
    from findBestTrade_good[OF False] obtain b s where
      run: "findBestTrade prices = Inr (b, s)" by blast
    from outerLoop_gainful[OF g p _ run[unfolded findBestTrade_def]]
    have "jsLessEq (Finite 0) (jsSub (prices ! nat s) (prices ! nat b))" by simp
    with run False show ?thesis by (simp add: realizedProfit_def jsGreaterEq_def)
  qed
  have fast: "\<exists>t. findBestTradeFast prices = Inr t
      \<and> jsGreaterEq (realizedProfit prices t) (Finite 0)"
  proof (cases "length prices < 2")
    case True
    with False first z show ?thesis
      by (simp add: findBestTradeFast_def realizedProfit_def jsGreaterEq_def)
  next
    case long: False
    from findBestTradeFast_valid[of prices] obtain b s where
      run: "findBestTradeFast prices = Inr (b, s)" by blast
    with long have loop: "fastLoop prices 1 0 (Finite 0) 0 0 = Inr (b, s)"
      by (simp add: findBestTradeFast_def)
    have v: "fastValid prices 1 0 0 0" using long by (simp add: fastValid_def)
    from fastLoop_gainful[OF v z _ loop] first z
    have "jsLessEq (Finite 0) (jsSub (prices ! nat s) (prices ! nat b))" by auto
    with run False show ?thesis by (simp add: realizedProfit_def jsGreaterEq_def)
  qed
  from quad fast show ?thesis ..
qed

theorem profit_nonnegative_witness:
  "isFinite ([Finite 7, NaN, Finite 1, PosInfinity] ! 0)
   \<and> findBestTrade [Finite 7, NaN, Finite 1, PosInfinity] = Inr (0, 3)
   \<and> jsGreaterEq (realizedProfit [Finite 7, NaN, Finite 1, PosInfinity] (0, 3)) (Finite 0)
   \<and> findBestTradeFast [Finite 7, NaN, Finite 1, PosInfinity] = Inr (2, 3)
   \<and> jsGreaterEq (realizedProfit [Finite 7, NaN, Finite 1, PosInfinity] (2, 3)) (Finite 0)"
proof -
  have fin: "[Finite 7, NaN, Finite 1, PosInfinity] \<noteq> []
      \<longrightarrow> isFinite ([Finite 7, NaN, Finite 1, PosInfinity] ! 0)"
    by (simp add: isFinite_def)
  have "findBestTrade [Finite 7, NaN, Finite 1, PosInfinity] = Inr (0, 3)"
    "findBestTradeFast [Finite 7, NaN, Finite 1, PosInfinity] = Inr (2, 3)"
    by code_simp+
  with profit_nonnegative[OF fin] fin show ?thesis by simp
qed

text \<open>
  Claim C8: on a sequence of length \<open>0\<close> or \<open>1\<close>, whatever its element, both finders return
  \<open>(0, 0)\<close>.
\<close>

theorem short_sequences:
  "length prices \<le> 1 \<Longrightarrow>
   findBestTrade prices = Inr (0, 0) \<and> findBestTradeFast prices = Inr (0, 0)"
  by (simp add: findBestTrade_short findBestTradeFast_def)

theorem short_sequences_witness:
  "length [Finite 5] \<le> 1
   \<and> findBestTrade [Finite 5] = Inr (0, 0) \<and> findBestTradeFast [Finite 5] = Inr (0, 0)"
  using short_sequences[of "[Finite 5]"] by simp

subsection \<open>Caching the comparison baseline\<close>

text \<open>
  Claim C9 says that computing \<^verbatim>\<open>currentBestProfit\<close> once per outer iteration gives the
  pair of \<^verbatim>\<open>findBestTrade\<close> on every input. It does not: on \<open>[1, 5, 3]\<close> the inner loop
  of \<^verbatim>\<open>findBestTrade\<close> keeps \<open>(0, 1)\<close>, since \<open>3 - 1\<close> does not exceed the recomputed
  baseline \<open>4\<close>, whereas against the baseline \<open>0\<close> fixed at the start of the iteration the
  pair \<open>(0, 2)\<close> replaces it.
\<close>

theorem hoisting_changes_result:
  "findBestTradeHoisted [Finite 1, Finite 5, Finite 3] = Inr (0, 2)
   \<and> findBestTrade [Finite 1, Finite 5, Finite 3] = Inr (0, 1)
   \<and> findBestTradeHoisted [Finite 1, Finite 5, Finite 3]
       \<noteq> findBestTrade [Finite 1, Finite 5, Finite 3]"
proof -
  have "findBestTradeHoisted [Finite 1, Finite 5, Finite 3] = Inr (0, 2)" by code_simp
  moreover have "findBestTrade [Finite 1, Finite 5, Finite 3] = Inr (0, 1)" by code_simp
  ultimately show ?thesis by simp
qed

text \<open>
  Claim C9, amended: the variant that computes \<^verbatim>\<open>currentBestProfit\<close> once per outer
  iteration and stores the new profit whenever the inner loop replaces the best pair returns
  the pair of \<^verbatim>\<open>findBestTrade\<close> on every input.
\<close>

theorem findBestTradeRefreshed_agrees: "findBestTradeRefreshed prices = findBestTrade prices"
proof (cases "prices = []")
  case True
  then show ?thesis
    by (simp add: findBestTradeRefreshed_def findBestTrade_def outerLoop.simps
        outerLoopCached.simps)
next
  case False
  then have g: "goodSearch prices initialSearch"
    by (simp add: goodSearch_def initialSearch_def)
  have "initialSearch = initialSearch\<lparr>currentBestProfit := Finite 0\<rparr>"
    by (simp add: initialSearch_def)
  with outerLoopCached_sim[OF g, of 0 "Finite 0"] show ?thesis
    by (simp add: findBestTradeRefreshed_def findBestTrade_def)
qed

theorem findBestTradeRefreshed_agrees_witness:
  "findBestTradeRefreshed [Finite 1, Finite 5, Finite 3] = Inr (0, 1)"
proof -
  have "findBestTrade [Finite 1, Finite 5, Finite 3] = Inr (0, 1)" by code_simp
  with findBestTradeRefreshed_agrees[of "[Finite 1, Finite 5, Finite 3]"] show ?thesis by simp
qed

subsection \<open>Termination of the quadratic finder\<close>

text \<open>
  Claim C10: \<^verbatim>\<open>findBestTrade\<close> returns on every input. Whenever the inner loop leaves
  \<^verbatim>\<open>isOptimalFound\<close> false, so that a restart may follow, \<^verbatim>\<open>nextTradeStartIndex\<close> is
  greater than the current outer index; the outer indices visited are strictly increasing
  and there are at most \<open>n\<close> of them; a budget of \<open>n\<close> runs of the outer loop body is
  enough to reach the result. The recursion of \<open>outerLoop\<close> is well-founded on
  \<open>n - currentIndex\<close>, which is the measure of its termination proof.
\<close>

theorem outer_loop_progress:
  "(\<exists>t. findBestTrade prices = Inr t)
   \<and> sorted_wrt (<) (outerIndices prices 0 initialSearch)
   \<and> length (outerIndices prices 0 initialSearch) \<le> length prices
   \<and> outerLoopFuel (length prices) prices 0 initialSearch = Some (findBestTrade prices)
   \<and> (\<forall>currentIndex st st'.
        innerLoop prices currentIndex (currentIndex + 1)
          (st\<lparr>isOptimalFound := True, minPriceDrop := Finite 0\<rparr>) = Inr st'
        \<and> \<not> isOptimalFound st'
        \<longrightarrow> currentIndex < nextTradeStartIndex st')"
proof (intro conjI allI impI)
  show "\<exists>t. findBestTrade prices = Inr t"
  proof (cases "prices = []")
    case True
    then show ?thesis by (simp add: findBestTrade_short)
  next
    case False
    from findBestTrade_good[OF this] show ?thesis by blast
  qed
  show "sorted_wrt (<) (outerIndices prices 0 initialSearch)"
    using outerIndices_increasing[of prices 0 initialSearch] by blast
  show "length (outerIndices prices 0 initialSearch) \<le> length prices"
    using outerIndices_length[of prices 0 initialSearch] by simp
  show "outerLoopFuel (length prices) prices 0 initialSearch = Some (findBestTrade prices)"
    unfolding findBestTrade_def by (rule outerLoopFuel_enough) simp
next
  fix currentIndex :: int and st st' :: "search"
  assume "innerLoop prices currentIndex (currentIndex + 1)
          (st\<lparr>isOptimalFound := True, minPriceDrop := Finite 0\<rparr>) = Inr st'
        \<and> \<not> isOptimalFound st'"
  with innerLoop_restart[of prices currentIndex "currentIndex + 1"
      "st\<lparr>isOptimalFound := True, minPriceDrop := Finite 0\<rparr>" st']
  show "currentIndex < nextTradeStartIndex st'" by simp
qed

theorem outer_loop_progress_witness:
  "innerLoop [Finite 2, Finite 1] 0 (0 + 1)
       (initialSearch\<lparr>isOptimalFound := True, minPriceDrop := Finite 0\<rparr>)
     = Inr \<lparr>bestBuyIndex = 0, bestSellIndex = 0, currentBestProfit = Finite 0,
            minPriceDrop = Finite (- 1), isOptimalFound = False, nextTradeStartIndex = 1\<rparr>
   \<and> (0 :: int) < nextTradeStartIndex
        \<lparr>bestBuyIndex = 0, bestSellIndex = 0, currentBestProfit = Finite 0,
            minPriceDrop = Finite (- 1), isOptimalFound = False, nextTradeStartIndex = 1\<rparr>
   \<and> length (outerIndices [Finite 2, Finite 1] 0 initialSearch) \<le> length [Finite 2, Finite 1]"
proof -
  have run: "innerLoop [Finite 2, Finite 1] 0 (0 + 1)
      (initialSearch\<lparr>isOptimalFound := True, minPriceDrop := Finite 0\<rparr>)
     = Inr \<lparr>bestBuyIndex = 0, bestSellIndex = 0, currentBestProfit = Finite 0,
            minPriceDrop = Finite (- 1), isOptimalFound = False, nextTradeStartIndex = 1\<rparr>"
    by code_simp
  from outer_loop_progress[of "[Finite 2, Finite 1]"] run show ?thesis
    by (metis search.select_convs(5))
qed

end
